theory Spec2Isabelle
  imports Main
begin

section \<open>Strings of the source language\<close>

text \<open>
  A Python \<open>str\<close> is a sequence of code points. The development works with the code
  points U+0000 .. U+00FF, one \<^typ>\<open>char\<close> each (\<open>of_char\<close> gives the code point);
  the character classes below are the ones Python uses on that range.
\<close>

abbreviation NL :: char where
  "NL \<equiv> CHR 0x0A"

definition isspace :: "char \<Rightarrow> bool" where
  \<comment> \<open>the characters \<open>str.strip()\<close> removes: TAB, LF, VT, FF, CR, FS, GS, RS, US, SPACE, NEL, NBSP\<close>
  "isspace c =
     (let n = (of_char c :: nat)
      in (9 \<le> n \<and> n \<le> 13) \<or> (28 \<le> n \<and> n \<le> 32) \<or> n = 133 \<or> n = 160)"

definition strip :: "string \<Rightarrow> string" where
  \<comment> \<open>\<open>s.strip()\<close>\<close>
  "strip s = rev (dropWhile isspace (rev (dropWhile isspace s)))"

fun split_nl :: "string \<Rightarrow> string list" where
  \<comment> \<open>\<open>s.split("\n")\<close>: always at least one piece\<close>
  "split_nl [] = [[]]"
| "split_nl (c # cs) =
     (if c = NL then [] # split_nl cs
      else (case split_nl cs of [] \<Rightarrow> [[c]] | l # ls \<Rightarrow> (c # l) # ls))"

fun join_nl :: "string list \<Rightarrow> string" where
  \<comment> \<open>\<open>"\n".join(xs)\<close>\<close>
  "join_nl [] = []"
| "join_nl [x] = x"
| "join_nl (x # y # ys) = x @ NL # join_nl (y # ys)"

fun str_in :: "string \<Rightarrow> string \<Rightarrow> bool" where
  \<comment> \<open>\<open>sub in s\<close>\<close>
  "str_in sub [] = (sub = [])"
| "str_in sub (c # cs) = (take (length sub) (c # cs) = sub \<or> str_in sub cs)"

section \<open>The caption filter\<close>

text \<open>
  \<open>filter_subtitles\<close> walks over the lines of the trimmed input with three local
  variables, which make up the state of the loop.
\<close>

record scan_state =
  past_header :: bool
  content_lines :: "string list"
  capture_next :: bool

definition init_state :: scan_state where
  "init_state = \<lparr>past_header = False, content_lines = [], capture_next = False\<rparr>"

definition is_marker :: "string \<Rightarrow> bool" where
  "is_marker line = str_in ''-->'' line"

definition tag_free :: "string \<Rightarrow> bool" where
  "tag_free line = (CHR ''<'' \<notin> set line \<and> CHR ''>'' \<notin> set line)"

definition loop_body :: "scan_state \<Rightarrow> string \<Rightarrow> scan_state" where
  \<comment> \<open>one iteration of \<open>for line in lines\<close>\<close>
  "loop_body st raw =
     (let line = strip raw in
      if is_marker line then st\<lparr>past_header := True, capture_next := True\<rparr>
      else if \<not> past_header st then st
      else if capture_next st \<and> line \<noteq> [] \<and> tag_free line then
        (if content_lines st = [] \<or> last (content_lines st) \<noteq> line
         then st\<lparr>content_lines := content_lines st @ [line], capture_next := False\<rparr>
         else st\<lparr>capture_next := False\<rparr>)
      else st)"

fun filter_loop :: "scan_state \<Rightarrow> string list \<Rightarrow> scan_state" where
  "filter_loop st [] = st"
| "filter_loop st (l # ls) = filter_loop (loop_body st l) ls"

definition filter_lines :: "string \<Rightarrow> string list" where
  \<comment> \<open>the list \<open>content_lines\<close> when the loop is done\<close>
  "filter_lines s = content_lines (filter_loop init_state (split_nl (strip s)))"

definition filter_subtitles :: "string \<Rightarrow> string" where
  "filter_subtitles s = join_nl (filter_lines s)"

subsection \<open>Notions used to state the properties\<close>

text \<open>
  The lines the loop can act on: trimmed and not empty.
\<close>

definition text_lines :: "string \<Rightarrow> string list" where
  "text_lines s = filter (\<lambda>l. l \<noteq> []) (map strip (split_nl s))"

text \<open>
  A cue is a timing line and the lines under it, up to the next timing line. Its candidate
  is the first line that is, once trimmed, neither empty nor tagged.
\<close>

definition candidate :: "string list \<Rightarrow> string option" where
  "candidate body = List.find (\<lambda>l. l \<noteq> [] \<and> tag_free l) (map strip body)"

definition cue_lines :: "(string \<times> string list) list \<Rightarrow> string list" where
  "cue_lines cues = concat (map (\<lambda>(m, body). m # body) cues)"

text \<open>
  Wrapping: a timing line put in front of each line of a transcript.
\<close>

fun wrap :: "string list \<Rightarrow> string list \<Rightarrow> string list" where
  "wrap (m # ms) (l # ls) = m # l # wrap ms ls"
| "wrap _ _ = []"

subsection \<open>Sample documents\<close>

definition scenario :: string where
  "scenario = join_nl
     [''00:00:00.000 --> 00:00:02.000'',
      ''hello world'',
      ''00:00:02.000 --> 00:00:04.000'',
      ''hello world'',
      ''00:00:04.000 --> 00:00:06.000'',
      ''<c>goodbye</c>'',
      ''goodbye now'']"

definition sample_cues :: "(string \<times> string list) list" where
  "sample_cues =
     [(''00:00:00.000 --> 00:00:02.000'', [''hello world'']),
      (''00:00:02.000 --> 00:00:04.000'', [''<c>hello</c>'', '' hello world '', ''more'']),
      (''00:00:04.000 --> 00:00:06.000'', ['''', ''hello world''])]"

definition two_blocks :: string where
  "two_blocks = join_nl [''WEBVTT'', ''00:01 --> 00:02'', ''first'', ''second'', ''00:02 --> 00:03'', ''third'']"

section \<open>The identifier extractor\<close>

text \<open>
  \<open>re.search(r"(?<=v=)[\w-]+", url_or_id)\<close>, and the whole match or else the input.
\<close>

definition is_word :: "char \<Rightarrow> bool" where
  \<comment> \<open>the class \<open>\w\<close> of a \<open>str\<close> pattern: alphanumeric code points and the underscore\<close>
  "is_word c =
     (let n = (of_char c :: nat)
      in (48 \<le> n \<and> n \<le> 57) \<or> (65 \<le> n \<and> n \<le> 90) \<or> n = 95 \<or> (97 \<le> n \<and> n \<le> 122)
         \<or> n = 170 \<or> n = 178 \<or> n = 179 \<or> n = 181 \<or> n = 185 \<or> n = 186
         \<or> (188 \<le> n \<and> n \<le> 190) \<or> (192 \<le> n \<and> n \<le> 214)
         \<or> (216 \<le> n \<and> n \<le> 246) \<or> (248 \<le> n \<and> n \<le> 255))"

definition is_ident :: "char \<Rightarrow> bool" where
  \<comment> \<open>the class \<open>[\w-]\<close>\<close>
  "is_ident c = (is_word c \<or> c = CHR ''-'')"

definition match_at :: "string \<Rightarrow> nat \<Rightarrow> string option" where
  \<comment> \<open>the pattern \<open>(?<=v=)[\w-]+\<close> tried at position \<open>p\<close>: the two characters before \<open>p\<close>
      are \<open>v=\<close>, and the greedy class takes the longest run from \<open>p\<close>, at least one character\<close>
  "match_at s p =
     (if 2 \<le> p \<and> take 2 (drop (p - 2) s) = ''v='' \<and> takeWhile is_ident (drop p s) \<noteq> []
      then Some (takeWhile is_ident (drop p s)) else None)"

definition re_search :: "string \<Rightarrow> string option" where
  \<comment> \<open>\<open>re.search\<close>: the start positions \<open>0 .. len(s)\<close> from the left, the first match wins\<close>
  "re_search s =
     (case List.find (\<lambda>p. match_at s p \<noteq> None) [0 ..< Suc (length s)] of
        None \<Rightarrow> None
      | Some p \<Rightarrow> match_at s p)"

definition extract_video_id :: "string \<Rightarrow> string" where
  "extract_video_id url_or_id =
     (case re_search url_or_id of Some m \<Rightarrow> m | None \<Rightarrow> url_or_id)"

text \<open>
  The contract in the words of the specification: the marker \<open>v=\<close> at position \<open>i\<close>,
  followed by at least one identifier character.
\<close>

definition marker_at :: "string \<Rightarrow> nat \<Rightarrow> bool" where
  "marker_at s i =
     (take 2 (drop i s) = ''v='' \<and> i + 2 < length s \<and> is_ident (s ! (i + 2)))"

section \<open>The text-completion client\<close>

definition format_prompt :: string where
  "format_prompt =
     ''[INST] Below is the transcript of a video. Please correct the capitalization and '' @ [NL] @
     ''punctuation, including making separate paragraphs, without changing any of the text. If a word '' @ [NL] @
     ''is misspelled, correct the word, and if a word does not exist take your best guess as to the '' @ [NL] @
     ''correct word. Only return the corrected text without commentary. [/INST]''"

definition video_prompt :: string where
  "video_prompt =
     ''[INST] Write a YouTube video title and video description for the following video script. [/INST]''"

record model_config =
  USER_ID :: string
  APP_ID :: string
  MODEL_ID :: string
  MODEL_VERSION_ID :: string

definition models :: "string \<rightharpoonup> model_config" where
  "models =
     [''Llama2-7b-chat'' \<mapsto> \<lparr>USER_ID = ''meta'', APP_ID = ''Llama-2'', MODEL_ID = ''Llama2-7b-chat'',
        MODEL_VERSION_ID = ''e52af5d6bc22445aa7a6761f327f7129''\<rparr>,
      ''Llama2-13b-chat'' \<mapsto> \<lparr>USER_ID = ''meta'', APP_ID = ''Llama-2'', MODEL_ID = ''llama2-13b-chat'',
        MODEL_VERSION_ID = ''79a1af31aa8249a99602fc05687e8f40''\<rparr>,
      ''Llama2-70b-chat'' \<mapsto> \<lparr>USER_ID = ''meta'', APP_ID = ''Llama-2'', MODEL_ID = ''llama2-70b-chat'',
        MODEL_VERSION_ID = ''6c27e86364ba461d98de95cddc559cb3''\<rparr>,
      ''GPT-3'' \<mapsto> \<lparr>USER_ID = ''openai'', APP_ID = ''chat-completion'', MODEL_ID = ''GPT-3_5-turbo'',
        MODEL_VERSION_ID = ''8ea3880d08a74dc0b39500b99dfaa376''\<rparr>,
      ''GPT-4'' \<mapsto> \<lparr>USER_ID = ''openai'', APP_ID = ''chat-completion'', MODEL_ID = ''GPT-4'',
        MODEL_VERSION_ID = ''ad16eda6ac054796bf9f348ab6733c72''\<rparr>]"

text \<open>
  The request handed to \<open>stub.PostModelOutputs\<close> and the part of the response the function
  reads: the status code, its description, and the raw text of each output.
\<close>

record request =
  user_id :: string
  app_id :: string
  model_id :: string
  version_id :: string
  raw :: string
  authorization :: string

record response =
  status_code :: nat
  description :: string
  outputs :: "string list"

definition SUCCESS :: nat where
  \<comment> \<open>\<open>status_code_pb2.SUCCESS\<close>\<close>
  "SUCCESS = 10000"

text \<open>
  What \<open>st.secrets[key]\<close> can do: give the value, raise \<open>KeyError\<close> (the store is there
  and has no such key), or raise another exception (there is no secrets file at all; the
  exception derives from \<open>FileNotFoundError\<close>, which \<open>except KeyError\<close> does not catch).
\<close>

datatype secret_lookup =
  Secret string
| NoSuchKey
| LookupFails

text \<open>
  What the function can see of its surroundings: the process environment (a dictionary),
  the secrets store and the hosted model behind the stub.
\<close>

record world =
  environ :: "string \<rightharpoonup> string"
  secrets :: "string \<Rightarrow> secret_lookup"
  hosted_model :: "request \<Rightarrow> response"

text \<open>
  The effects of a call, in the order they happen, and the exceptions that can leave it:
  \<open>'Key ' + None\<close> is a \<open>TypeError\<close>, \<open>outputs[0]\<close> of an empty list an \<open>IndexError\<close>,
  and \<open>SecretsError\<close> stands for what the secrets store raises other than \<open>KeyError\<close>.
\<close>

datatype event =
  StError string
| OpenChannel
| PostModelOutputs request

datatype py_exn = TypeError | IndexError | SecretsError

definition resolve_pat :: "world \<Rightarrow> (py_exn + string option) \<times> event list" where
  \<comment> \<open>lines 109 to 116: the environment first (\<open>if not PAT\<close>: an empty value counts as
      unset), then the secrets store, whose value is taken as it is, also when empty; only
      \<open>KeyError\<close> is caught, reported and leaves \<open>PAT = None\<close>\<close>
  "resolve_pat w =
     (case environ w ''CLARIFAI_PAT'' of
        Some (c # cs) \<Rightarrow> (Inr (Some (c # cs)), [])
      | _ \<Rightarrow>
        (case secrets w ''CLARIFAI_PAT'' of
           Secret v \<Rightarrow> (Inr (Some v), [])
         | NoSuchKey \<Rightarrow>
             (Inr None, [StError ''Failed to retrieve the Clarifai Personal Access Token!''])
         | LookupFails \<Rightarrow> (Inl SecretsError, [])))"

definition format_with_clarifai_api ::
  "world \<Rightarrow> model_config \<Rightarrow> string \<Rightarrow> string \<Rightarrow> (py_exn + string option) \<times> event list" where
  "format_with_clarifai_api w selected_model raw_text prompt =
     (let full_prompt = prompt @ [NL] @ raw_text @ [NL]
      in case resolve_pat w of
           (Inl e, ev1) \<Rightarrow> (Inl e, ev1)
         | (Inr PAT, ev1) \<Rightarrow>
           (let ev2 = ev1 @ [OpenChannel]
            in case PAT of
                 None \<Rightarrow> (Inl TypeError, ev2)  \<comment> \<open>\<open>'Key ' + None\<close>\<close>
               | Some pat \<Rightarrow>
                 (let req = \<lparr>user_id = USER_ID selected_model, app_id = APP_ID selected_model,
                             model_id = MODEL_ID selected_model,
                             version_id = MODEL_VERSION_ID selected_model,
                             raw = full_prompt, authorization = ''Key '' @ pat\<rparr>;
                      resp = hosted_model w req;
                      ev3 = ev2 @ [PostModelOutputs req]
                  in if status_code resp \<noteq> SUCCESS
                     then (Inr None,
                           ev3 @ [StError (''Error from Clarifai API: '' @ description resp)])
                     else (case outputs resp of
                             [] \<Rightarrow> (Inl IndexError, ev3)
                           | out # _ \<Rightarrow>
                               (Inr (if out \<noteq> [] then Some (strip out) else None), ev3)))))"

text \<open>
  The results one session holds, and the two button actions of the page that call the
  client. Both sit under \<open>if subtitles:\<close>, the second also under
  \<open>if st.session_state.formatted_text:\<close>; an exception leaves the action.
\<close>

record session =
  subtitles :: "string option"
  formatted_text :: "string option"
  video_description :: "string option"

definition punctuate_script ::
  "world \<Rightarrow> model_config \<Rightarrow> session \<Rightarrow> (py_exn + session) \<times> event list" where
  "punctuate_script w selected_model ss =
     (case subtitles ss of
        Some (c # cs) \<Rightarrow>
          (case format_with_clarifai_api w selected_model (c # cs) format_prompt of
             (Inl e, ev) \<Rightarrow> (Inl e, ev)
           | (Inr r, ev) \<Rightarrow> (Inr (ss\<lparr>formatted_text := r\<rparr>), ev))
      | _ \<Rightarrow> (Inr ss, []))"

definition generate_title ::
  "world \<Rightarrow> model_config \<Rightarrow> session \<Rightarrow> (py_exn + session) \<times> event list" where
  "generate_title w selected_model ss =
     (case (subtitles ss, formatted_text ss) of
        (Some (_ # _), Some (c # cs)) \<Rightarrow>
          (case format_with_clarifai_api w selected_model (c # cs) video_prompt of
             (Inl e, ev) \<Rightarrow> (Inl e, ev)
           | (Inr r, ev) \<Rightarrow> (Inr (ss\<lparr>video_description := r\<rparr>), ev))
      | _ \<Rightarrow> (Inr ss, []))"

subsection \<open>Sample surroundings\<close>

definition no_credentials :: world where
  \<comment> \<open>the variable unset, a secrets file without the key\<close>
  "no_credentials =
     \<lparr>environ = Map.empty, secrets = (\<lambda>_. NoSuchKey),
      hosted_model = (\<lambda>_. \<lparr>status_code = SUCCESS, description = [], outputs = [''ok'']\<rparr>)\<rparr>"

definition empty_secret :: world where
  \<comment> \<open>the variable unset, \<open>CLARIFAI_PAT = ""\<close> in the secrets file; the provider refuses the key\<close>
  "empty_secret =
     \<lparr>environ = Map.empty, secrets = (\<lambda>_. Secret []),
      hosted_model = (\<lambda>_. \<lparr>status_code = 11102, description = ''Invalid API key'', outputs = []\<rparr>)\<rparr>"

definition no_secrets_file :: world where
  \<comment> \<open>the variable unset, no secrets file\<close>
  "no_secrets_file =
     \<lparr>environ = Map.empty, secrets = (\<lambda>_. LookupFails),
      hosted_model = (\<lambda>_. \<lparr>status_code = SUCCESS, description = [], outputs = [''ok'']\<rparr>)\<rparr>"

definition failing_model :: world where
  "failing_model =
     \<lparr>environ = [''CLARIFAI_PAT'' \<mapsto> ''0123''], secrets = (\<lambda>_. NoSuchKey),
      hosted_model = (\<lambda>_. \<lparr>status_code = 21200, description = ''Model does not exist'', outputs = []\<rparr>)\<rparr>"

definition gpt4 :: model_config where
  "gpt4 = \<lparr>USER_ID = ''openai'', APP_ID = ''chat-completion'', MODEL_ID = ''GPT-4'',
        MODEL_VERSION_ID = ''ad16eda6ac054796bf9f348ab6733c72''\<rparr>"

section \<open>Splitting, joining and trimming\<close>

lemma isspace_NL: "isspace NL"
  by (simp add: isspace_def)

lemma not_isspace_tags: "\<not> isspace CHR ''-''" "\<not> isspace CHR ''>''" "\<not> isspace CHR ''<''"
  by (simp_all add: isspace_def)

lemma str_in_iff: "str_in sub s \<longleftrightarrow> (\<exists>ps ss. s = ps @ sub @ ss)"
proof (induction s)
  case Nil
  then show ?case by auto
next
  case (Cons c cs)
  show ?case
  proof
    assume "str_in sub (c # cs)"
    then consider "take (length sub) (c # cs) = sub" | "str_in sub cs" by auto
    then show "\<exists>ps ss. c # cs = ps @ sub @ ss"
    proof cases
      case 1
      then have "c # cs = [] @ sub @ drop (length sub) (c # cs)"
        by (metis append_Nil append_take_drop_id)
      then show ?thesis by blast
    next
      case 2
      then obtain ps ss where "cs = ps @ sub @ ss" using Cons.IH by blast
      then have "c # cs = (c # ps) @ sub @ ss" by simp
      then show ?thesis by blast
    qed
  next
    assume "\<exists>ps ss. c # cs = ps @ sub @ ss"
    then obtain ps ss where eq: "c # cs = ps @ sub @ ss" by blast
    show "str_in sub (c # cs)"
    proof (cases ps)
      case Nil
      then have "take (length sub) (c # cs) = sub" using eq by simp
      then show ?thesis by simp
    next
      case (Cons p ps')
      then have "cs = ps' @ sub @ ss" using eq by simp
      then have "str_in sub cs" using Cons.IH by blast
      then show ?thesis by simp
    qed
  qed
qed

lemma str_in_rev: "str_in sub (rev s) = str_in (rev sub) s"
proof -
  have "(\<exists>ps ss. rev s = ps @ sub @ ss) = (\<exists>ps ss. s = ps @ rev sub @ ss)"
  proof
    assume "\<exists>ps ss. rev s = ps @ sub @ ss"
    then obtain ps ss where "rev s = ps @ sub @ ss" by blast
    then have "s = rev ss @ rev sub @ rev ps" by (metis append.assoc rev_append rev_rev_ident)
    then show "\<exists>ps ss. s = ps @ rev sub @ ss" by blast
  next
    assume "\<exists>ps ss. s = ps @ rev sub @ ss"
    then obtain ps ss where "s = ps @ rev sub @ ss" by blast
    then have "rev s = rev ss @ sub @ rev ps" by simp
    then show "\<exists>ps ss. rev s = ps @ sub @ ss" by blast
  qed
  then show ?thesis by (simp add: str_in_iff)
qed

lemma str_in_dropWhile:
  "sub \<noteq> [] \<Longrightarrow> \<not> P (hd sub) \<Longrightarrow> str_in sub (dropWhile P s) = str_in sub s"
proof (induction s)
  case Nil
  then show ?case by simp
next
  case (Cons c cs)
  show ?case
  proof (cases "P c")
    case True
    have "take (length sub) (c # cs) \<noteq> sub"
    proof
      assume "take (length sub) (c # cs) = sub"
      then have "hd sub = c" using Cons.prems(1) by (cases sub) auto
      then show False using True Cons.prems(2) by simp
    qed
    then show ?thesis using True Cons by simp
  next
    case False
    then show ?thesis by simp
  qed
qed

lemma rev_drop_take: "xs = rev (dropWhile P (rev xs)) @ rev (takeWhile P (rev xs))"
  by (metis rev_append rev_rev_ident takeWhile_dropWhile_id)

lemma strip_decomp: "\<exists>a b. s = a @ strip s @ b \<and> (\<forall>c\<in>set a. isspace c) \<and> (\<forall>c\<in>set b. isspace c)"
proof -
  let ?d = "dropWhile isspace s"
  have 1: "s = takeWhile isspace s @ ?d" by simp
  have "?d = rev (dropWhile isspace (rev ?d)) @ rev (takeWhile isspace (rev ?d))"
    by (rule rev_drop_take)
  then have "s = takeWhile isspace s @ strip s @ rev (takeWhile isspace (rev ?d))"
    unfolding strip_def using 1 by simp
  moreover have "\<forall>c\<in>set (takeWhile isspace s). isspace c" by (auto dest: set_takeWhileD)
  moreover have "\<forall>c\<in>set (rev (takeWhile isspace (rev ?d))). isspace c" by (auto dest: set_takeWhileD)
  ultimately show ?thesis by blast
qed

lemma set_strip: "set (strip s) \<subseteq> set s"
  using strip_decomp[of s] by (metis Un_upper1 Un_upper2 set_append subset_trans)

lemma strip_keeps: "c \<in> set l \<Longrightarrow> \<not> isspace c \<Longrightarrow> c \<in> set (strip l)"
proof -
  assume c: "c \<in> set l" and n: "\<not> isspace c"
  obtain a b where ab: "l = a @ strip l @ b" "\<forall>c\<in>set a. isspace c" "\<forall>c\<in>set b. isspace c"
    using strip_decomp by blast
  have "c \<in> set a \<union> set (strip l) \<union> set b" using c ab(1) by (metis set_append Un_assoc)
  then show ?thesis using ab(2,3) n by blast
qed

lemma strip_Nil [simp]: "strip [] = []"
  by (simp add: strip_def)

lemma strip_ends: "strip s \<noteq> [] \<Longrightarrow> \<not> isspace (hd (strip s)) \<and> \<not> isspace (last (strip s))"
proof -
  assume ne: "strip s \<noteq> []"
  let ?r = "dropWhile isspace (rev (dropWhile isspace s))"
  have r: "?r \<noteq> []" using ne by (simp add: strip_def)
  have l: "\<not> isspace (hd ?r)" using r hd_dropWhile by blast
  have "last (strip s) = hd ?r" using r by (simp add: strip_def last_rev)
  then have A: "\<not> isspace (last (strip s))" using l by simp
  have d: "dropWhile isspace s \<noteq> []"
  proof
    assume "dropWhile isspace s = []"
    then have "?r = []" by (simp del: dropWhile_eq_Nil_conv)
    with r show False by simp
  qed
  then have h: "\<not> isspace (hd (dropWhile isspace s))" using hd_dropWhile by blast
  have "dropWhile isspace s = rev ?r @ rev (takeWhile isspace (rev (dropWhile isspace s)))"
    by (rule rev_drop_take)
  then have "hd (dropWhile isspace s) = hd (rev ?r)" using r by (metis hd_append2 rev_is_Nil_conv)
  then have "\<not> isspace (hd (strip s))" using h by (simp add: strip_def)
  then show ?thesis using A by simp
qed

lemma strip_id: "s = [] \<or> (\<not> isspace (hd s) \<and> \<not> isspace (last s)) \<Longrightarrow> strip s = s"
proof (cases s)
  case Nil then show ?thesis by simp
next
  case (Cons c cs)
  assume "s = [] \<or> (\<not> isspace (hd s) \<and> \<not> isspace (last s))"
  then have h: "\<not> isspace (hd s)" and l: "\<not> isspace (last s)" using Cons by auto
  have "dropWhile isspace s = s" using h Cons by simp
  moreover have "dropWhile isspace (rev s) = rev s" using l Cons
    by (metis dropWhile.simps(2) hd_rev list.collapse list.distinct(1) rev_is_Nil_conv)
  ultimately show ?thesis by (simp add: strip_def)
qed

lemma strip_strip [simp]: "strip (strip s) = strip s"
  using strip_ends[of s] strip_id[of "strip s"] by blast

lemma strip_Cons_space: "isspace c \<Longrightarrow> strip (c # l) = strip l"
  by (simp add: strip_def)

lemma strip_snoc_space: "isspace c \<Longrightarrow> strip (l @ [c]) = strip l"
  by (auto simp: strip_def dropWhile_append dropWhile_eq_Nil_conv[THEN iffD2])

lemma split_nl_ne [simp]: "split_nl s \<noteq> []"
  by (induction s) (auto split: list.splits)

lemma split_nl_no_NL: "l \<in> set (split_nl s) \<Longrightarrow> NL \<notin> set l"
  by (induction s arbitrary: l) (auto split: list.splits if_splits)

lemma split_nl_append_NL: "split_nl (a @ NL # b) = split_nl a @ split_nl b"
  by (induction a) (auto split: list.splits)

lemma split_nl_single: "NL \<notin> set l \<Longrightarrow> split_nl l = [l]"
  by (induction l) auto

lemma split_nl_snoc:
  "c \<noteq> NL \<Longrightarrow> split_nl (xs @ [c]) = butlast (split_nl xs) @ [last (split_nl xs) @ [c]]"
  by (induction xs) (auto split: list.splits)

lemma split_join:
  "ls \<noteq> [] \<Longrightarrow> \<forall>l\<in>set ls. NL \<notin> set l \<Longrightarrow> split_nl (join_nl ls) = ls"
proof (induction ls rule: join_nl.induct)
  case 1
  then show ?case by simp
next
  case (2 x)
  then show ?case by (simp add: split_nl_single)
next
  case (3 x y ys)
  have "split_nl (join_nl (x # y # ys)) = split_nl x @ split_nl (join_nl (y # ys))"
    by (simp add: split_nl_append_NL)
  then show ?case using 3 by (simp add: split_nl_single)
qed

lemma set_join_nl: "set (join_nl ls) \<subseteq> (\<Union>l\<in>set ls. set l) \<union> {NL}"
  by (induction ls rule: join_nl.induct) auto

text \<open>
  Trimming the whole document first changes nothing about the lines the loop can act on.
\<close>

lemma text_lines_Cons_space: "isspace c \<Longrightarrow> text_lines (c # cs) = text_lines cs"
  by (cases "split_nl cs") (auto simp: text_lines_def strip_Cons_space)

lemma text_lines_dropWhile: "text_lines (dropWhile isspace s) = text_lines s"
  by (induction s) (auto simp: text_lines_Cons_space)

lemma text_lines_snoc_space: "isspace c \<Longrightarrow> text_lines (xs @ [c]) = text_lines xs"
proof (cases "c = NL")
  case True
  then have "split_nl (xs @ [c]) = split_nl xs @ [[]]"
    using split_nl_append_NL[of xs "[]"] by simp
  then show ?thesis by (simp add: text_lines_def)
next
  case False
  assume sp: "isspace c"
  obtain bs l where bl: "split_nl xs = bs @ [l]"
    by (metis split_nl_ne rev_exhaust)
  then have "split_nl (xs @ [c]) = bs @ [l @ [c]]"
    using split_nl_snoc[OF False, of xs] by simp
  then show ?thesis using bl sp by (simp add: text_lines_def strip_snoc_space)
qed

lemma text_lines_dropWhile_right: "text_lines (rev (dropWhile isspace (rev s))) = text_lines s"
  by (induction s rule: rev_induct) (auto simp: text_lines_snoc_space)

lemma text_lines_strip: "text_lines (strip s) = text_lines s"
  by (simp add: strip_def text_lines_dropWhile_right text_lines_dropWhile)

section \<open>The loop of the caption filter\<close>

lemma is_marker_Nil [simp]: "\<not> is_marker []"
  by (simp add: is_marker_def)

lemma is_marker_strip [simp]: "is_marker (strip l) = is_marker l"
proof -
  have "str_in ''-->'' (strip l) = str_in (rev ''-->'') (dropWhile isspace (rev (dropWhile isspace l)))"
    unfolding strip_def by (rule str_in_rev)
  also have "\<dots> = str_in (rev ''-->'') (rev (dropWhile isspace l))"
    by (rule str_in_dropWhile) (simp_all add: not_isspace_tags)
  also have "\<dots> = str_in ''-->'' (dropWhile isspace l)"
    by (simp add: str_in_rev)
  also have "\<dots> = str_in ''-->'' l"
    by (rule str_in_dropWhile) (simp_all add: not_isspace_tags)
  finally show ?thesis by (simp add: is_marker_def)
qed

lemma marker_not_tag_free: "is_marker l \<Longrightarrow> \<not> tag_free l"
  by (auto simp: is_marker_def str_in_iff tag_free_def)

lemma tag_free_strip [simp]: "tag_free (strip l) = tag_free l"
  using set_strip[of l] strip_keeps[of "CHR ''<''" l] strip_keeps[of "CHR ''>''" l] not_isspace_tags
  by (auto simp: tag_free_def)

text \<open>
  The loop body on the three kinds of line.
\<close>

lemma loop_body_strip: "loop_body st (strip ln) = loop_body st ln"
  by (simp add: loop_body_def)

lemma loop_body_empty: "strip ln = [] \<Longrightarrow> loop_body st ln = st"
  by (simp add: loop_body_def)

lemma loop_body_marker:
  "is_marker l \<Longrightarrow> loop_body st l = st\<lparr>past_header := True, capture_next := True\<rparr>"
  by (simp add: loop_body_def Let_def)

lemma loop_body_idle:
  "\<not> is_marker l \<Longrightarrow> \<not> past_header st \<or> \<not> capture_next st \<or> strip l = [] \<or> \<not> tag_free l
    \<Longrightarrow> loop_body st l = st"
  by (auto simp: loop_body_def Let_def)

lemma loop_body_capture:
  "past_header st \<Longrightarrow> capture_next st \<Longrightarrow> strip l \<noteq> [] \<Longrightarrow> tag_free l \<Longrightarrow>
   loop_body st l =
     st\<lparr>content_lines := (if content_lines st = [] \<or> last (content_lines st) \<noteq> strip l
                           then content_lines st @ [strip l] else content_lines st),
        capture_next := False\<rparr>"
  using marker_not_tag_free[of l] by (auto simp: loop_body_def Let_def)

lemma filter_loop_append: "filter_loop st (xs @ ys) = filter_loop (filter_loop st xs) ys"
  by (induction xs arbitrary: st) auto

lemma filter_loop_text:
  "filter_loop st ls = filter_loop st (filter (\<lambda>l. l \<noteq> []) (map strip ls))"
proof (induction ls arbitrary: st)
  case Nil
  then show ?case by simp
next
  case (Cons l ls)
  show ?case
  proof (cases "strip l = []")
    case True
    then show ?thesis using Cons[of st] by (simp add: loop_body_empty)
  next
    case False
    then show ?thesis using Cons[of "loop_body st l"] by (simp add: loop_body_strip)
  qed
qed

lemma filter_lines_text: "filter_lines s = content_lines (filter_loop init_state (text_lines s))"
proof -
  have "filter_lines s = content_lines (filter_loop init_state (text_lines (strip s)))"
    unfolding filter_lines_def text_lines_def by (rule arg_cong[OF filter_loop_text])
  then show ?thesis by (simp add: text_lines_strip)
qed

lemma filter_loop_idle:
  "\<forall>l\<in>set ls. \<not> is_marker l \<Longrightarrow> \<not> past_header st \<or> \<not> capture_next st \<Longrightarrow> filter_loop st ls = st"
  by (induction ls) (auto simp: loop_body_idle)

lemma filter_loop_cue:
  "\<forall>l\<in>set body. \<not> is_marker l \<Longrightarrow> past_header st \<Longrightarrow> capture_next st \<Longrightarrow>
   filter_loop st body =
     (case candidate body of
        None \<Rightarrow> st
      | Some t \<Rightarrow> st\<lparr>content_lines := (if content_lines st = [] \<or> last (content_lines st) \<noteq> t
                           then content_lines st @ [t] else content_lines st),
                     capture_next := False\<rparr>)"
proof (induction body)
  case Nil
  then show ?case by (simp add: candidate_def)
next
  case (Cons l body)
  show ?case
  proof (cases "strip l \<noteq> [] \<and> tag_free l")
    case True
    then have "filter_loop st (l # body) = loop_body st l"
      using Cons.prems by (simp add: loop_body_capture filter_loop_idle)
    then show ?thesis using True Cons.prems by (simp add: candidate_def loop_body_capture)
  next
    case False
    then have "loop_body st l = st" using Cons.prems by (auto simp: loop_body_idle)
    then show ?thesis using False Cons by (auto simp: candidate_def)
  qed
qed

lemma filter_loop_one_cue:
  assumes "is_marker m" "\<forall>l\<in>set body. \<not> is_marker l"
  shows "filter_loop st (m # body) =
     (case candidate body of
        None \<Rightarrow> st\<lparr>past_header := True, capture_next := True\<rparr>
      | Some t \<Rightarrow> st\<lparr>past_header := True,
                     content_lines := (if content_lines st = [] \<or> last (content_lines st) \<noteq> t
                           then content_lines st @ [t] else content_lines st),
                     capture_next := False\<rparr>)"
  using assms by (simp add: loop_body_marker filter_loop_cue split: option.splits)

lemma filter_loop_same_cues:
  assumes "\<forall>(m, body)\<in>set cues. is_marker m \<and> (\<forall>l\<in>set body. \<not> is_marker l) \<and> candidate body = Some t"
  shows "content_lines (filter_loop st (cue_lines cues)) =
     (if cues = [] \<or> (content_lines st \<noteq> [] \<and> last (content_lines st) = t)
      then content_lines st else content_lines st @ [t])"
  using assms
proof (induction cues arbitrary: st)
  case Nil
  then show ?case by (simp add: cue_lines_def)
next
  case (Cons cue cues)
  obtain m body where cue: "cue = (m, body)" by (cases cue)
  have m: "is_marker m" and b: "\<forall>l\<in>set body. \<not> is_marker l" and c: "candidate body = Some t"
    using Cons.prems cue by auto
  let ?st = "filter_loop st (m # body)"
  have 1: "content_lines ?st =
      (if content_lines st = [] \<or> last (content_lines st) \<noteq> t
       then content_lines st @ [t] else content_lines st)"
    using filter_loop_one_cue[OF m b, of st] c by simp
  have 2: "content_lines (filter_loop ?st (cue_lines cues)) =
      (if cues = [] \<or> (content_lines ?st \<noteq> [] \<and> last (content_lines ?st) = t)
       then content_lines ?st else content_lines ?st @ [t])"
    using Cons.IH[of ?st] Cons.prems by simp
  have 3: "filter_loop st (cue_lines (cue # cues)) = filter_loop ?st (cue_lines cues)"
    unfolding cue_lines_def cue using filter_loop_append[of st "m # body"] by simp
  show ?case unfolding 3 2 1 by auto
qed

text \<open>
  What holds of \<open>content_lines\<close> throughout: it only grows, never repeats a line
  at once, and holds trimmed, tag-free, non-empty lines of the input.
\<close>

lemma content_grows: "\<exists>ys. content_lines (filter_loop st ls) = content_lines st @ ys"
proof (induction ls arbitrary: st)
  case Nil
  then show ?case by simp
next
  case (Cons l ls)
  obtain ys where 1: "content_lines (filter_loop (loop_body st l) ls) = content_lines (loop_body st l) @ ys"
    using Cons by blast
  have "\<exists>zs. content_lines (loop_body st l) = content_lines st @ zs"
    by (simp add: loop_body_def Let_def)
  then obtain zs where 2: "content_lines (loop_body st l) = content_lines st @ zs"
    by blast
  show ?case using 1 2 by simp
qed

lemma content_distinct_adj:
  "distinct_adj (content_lines st) \<Longrightarrow> distinct_adj (content_lines (filter_loop st ls))"
proof (induction ls arbitrary: st)
  case Nil
  then show ?case by simp
next
  case (Cons l ls)
  have "distinct_adj (content_lines (loop_body st l))"
    using Cons.prems by (auto simp: loop_body_def Let_def distinct_adj_append_iff)
  then show ?case using Cons.IH by simp
qed

lemma content_origin:
  "x \<in> set (content_lines (filter_loop st ls)) \<Longrightarrow>
   x \<in> set (content_lines st) \<or> (\<exists>l\<in>set ls. x = strip l \<and> x \<noteq> [] \<and> tag_free x)"
proof (induction ls arbitrary: st)
  case Nil
  then show ?case by simp
next
  case (Cons l ls)
  from Cons.IH[OF Cons.prems[simplified]]
  consider "x \<in> set (content_lines (loop_body st l))" | "\<exists>l\<in>set ls. x = strip l \<and> x \<noteq> [] \<and> tag_free x"
    by blast
  then show ?case
  proof cases
    case 1
    then have "x \<in> set (content_lines st) \<or> (x = strip l \<and> x \<noteq> [] \<and> tag_free x)"
      by (auto simp: loop_body_def Let_def split: if_splits)
    then show ?thesis by auto
  next
    case 2
    then show ?thesis by auto
  qed
qed

lemma filter_lines_join:
  "\<forall>l\<in>set ls. NL \<notin> set l \<Longrightarrow> filter_lines (join_nl ls) = content_lines (filter_loop init_state ls)"
proof (cases "ls = []")
  case True
  then show ?thesis by (simp add: filter_lines_def loop_body_empty)
next
  case False
  assume "\<forall>l\<in>set ls. NL \<notin> set l"
  then have "text_lines (join_nl ls) = filter (\<lambda>l. l \<noteq> []) (map strip ls)"
    using False by (simp add: text_lines_def split_join)
  then show ?thesis by (simp add: filter_lines_text filter_loop_text[symmetric])
qed

lemma filter_lines_props:
  "x \<in> set (filter_lines s) \<Longrightarrow> x \<noteq> [] \<and> tag_free x \<and> strip x = x \<and> NL \<notin> set x"
proof -
  assume "x \<in> set (filter_lines s)"
  then have "x \<in> set (content_lines init_state) \<or>
      (\<exists>l\<in>set (split_nl (strip s)). x = strip l \<and> x \<noteq> [] \<and> tag_free x)"
    unfolding filter_lines_def by (rule content_origin)
  then obtain l where l: "l \<in> set (split_nl (strip s))" "x = strip l" "x \<noteq> []" "tag_free x"
    by (auto simp: init_state_def)
  have "NL \<notin> set l" using l(1) by (rule split_nl_no_NL)
  then have "NL \<notin> set x" using l(2) set_strip by blast
  then show ?thesis using l by simp
qed

lemma split_output:
  "split_nl (filter_subtitles s) = (if filter_lines s = [] then [[]] else filter_lines s)"
  using filter_lines_props[of _ s] by (auto simp: filter_subtitles_def split_join)

lemma output_tag_free: "tag_free (filter_subtitles s)"
proof -
  have "\<forall>l\<in>set (filter_lines s). tag_free l" using filter_lines_props by blast
  then have "CHR ''<'' \<notin> (\<Union>l\<in>set (filter_lines s). set l) \<union> {NL}"
    and "CHR ''>'' \<notin> (\<Union>l\<in>set (filter_lines s). set l) \<union> {NL}"
    by (auto simp: tag_free_def)
  then show ?thesis using set_join_nl[of "filter_lines s"]
    unfolding tag_free_def filter_subtitles_def by blast
qed

lemma set_wrap: "set (wrap ms ls) \<subseteq> set ms \<union> set ls"
  by (induction ms ls rule: wrap.induct) auto

lemma filter_loop_wrap:
  "length ms = length ls \<Longrightarrow> \<forall>m\<in>set ms. is_marker m \<Longrightarrow>
   \<forall>l\<in>set ls. l \<noteq> [] \<and> tag_free l \<and> strip l = l \<Longrightarrow>
   distinct_adj (content_lines st @ ls) \<Longrightarrow>
   content_lines (filter_loop st (wrap ms ls)) = content_lines st @ ls"
proof (induction ms ls arbitrary: st rule: list_induct2)
  case Nil
  then show ?case by simp
next
  case (Cons m ms l ls)
  let ?st1 = "st\<lparr>past_header := True, capture_next := True\<rparr>"
  have l: "strip l = l" "l \<noteq> []" "tag_free l" using Cons.prems(2) by auto
  have d: "content_lines st = [] \<or> last (content_lines st) \<noteq> l"
    using Cons.prems(3) by (auto simp: distinct_adj_append_iff)
  have 1: "loop_body st m = ?st1" using Cons.prems(1) by (simp add: loop_body_marker)
  have 2: "loop_body ?st1 l = ?st1\<lparr>content_lines := content_lines st @ [l], capture_next := False\<rparr>"
    using l d by (auto simp: loop_body_capture)
  let ?st2 = "?st1\<lparr>content_lines := content_lines st @ [l], capture_next := False\<rparr>"
  have "content_lines (filter_loop ?st2 (wrap ms ls)) = content_lines ?st2 @ ls"
    using Cons.prems by (intro Cons.IH) auto
  then show ?case by (simp add: 1 2)
qed

section \<open>The search of the identifier extractor\<close>

lemma takeWhile_ne: "takeWhile P xs \<noteq> [] \<longleftrightarrow> xs \<noteq> [] \<and> P (hd xs)"
  by (cases xs) auto

lemma match_at_marker: "match_at s (i + 2) \<noteq> None \<longleftrightarrow> marker_at s i"
  by (auto simp: match_at_def marker_at_def takeWhile_ne hd_drop_conv_nth)

lemma match_at_small: "p < 2 \<Longrightarrow> match_at s p = None"
  by (simp add: match_at_def)

lemma match_at_iff: "match_at s p \<noteq> None \<longleftrightarrow> 2 \<le> p \<and> marker_at s (p - 2)"
proof (cases "2 \<le> p")
  case True
  then have "p = (p - 2) + 2" by simp
  then show ?thesis using match_at_marker[of s "p - 2"] True by metis
next
  case False
  then show ?thesis by (simp add: match_at_small)
qed

lemma re_search_none:
  assumes "\<forall>i. \<not> marker_at s i"
  shows "re_search s = None"
proof -
  have a: "match_at s p = None" for p
    using match_at_iff[of s p] assms by blast
  have "List.find (\<lambda>p. match_at s p \<noteq> None) [0 ..< Suc (length s)] = None"
    unfolding find_None_iff by (simp add: a)
  then show ?thesis by (simp add: re_search_def)
qed

lemma re_search_leftmost:
  assumes "marker_at s i" "\<forall>j<i. \<not> marker_at s j"
  shows "re_search s = Some (takeWhile is_ident (drop (i + 2) s))"
proof -
  have len: "i + 2 < length s" using assms(1) by (simp add: marker_at_def)
  have m: "match_at s (i + 2) \<noteq> None" using assms(1) match_at_marker[of s i] by blast
  have before: "\<forall>q<i + 2. match_at s q = None"
  proof (intro allI impI)
    fix q assume q: "q < i + 2"
    show "match_at s q = None"
    proof (cases "2 \<le> q")
      case True
      then have "q - 2 < i" using q by simp
      then have "\<not> marker_at s (q - 2)" using assms(2) by simp
      then show ?thesis using match_at_iff[of s q] by blast
    next
      case False
      then show ?thesis by (simp add: match_at_small)
    qed
  qed
  have "List.find (\<lambda>p. match_at s p \<noteq> None) [0 ..< Suc (length s)] = Some (i + 2)"
    unfolding find_Some_iff
  proof (intro exI[of _ "i + 2"] conjI allI impI)
    show "i + 2 < length [0..<Suc (length s)]" using len by simp
    show "match_at s ([0..<Suc (length s)] ! (i + 2)) \<noteq> None"
      using m len by (simp add: nth_upt del: upt_Suc)
    show "i + 2 = [0..<Suc (length s)] ! (i + 2)" using len by (simp add: nth_upt del: upt_Suc)
    fix j assume j: "j < i + 2"
    then have "[0..<Suc (length s)] ! j = j" using len by (simp add: nth_upt del: upt_Suc)
    then show "\<not> match_at s ([0..<Suc (length s)] ! j) \<noteq> None" using before j by simp
  qed
  then have "re_search s = match_at s (i + 2)" by (simp add: re_search_def)
  then show ?thesis using m by (simp add: match_at_def split: if_splits)
qed

lemma marker_at_bound: "marker_at s i \<Longrightarrow> i \<in> set [0 ..< length s]"
  by (simp add: marker_at_def)

section \<open>The properties\<close>

text \<open>
  C1. On the seven-line scenario document the caption filter returns the two lines
  \<open>hello world\<close> and \<open>goodbye now\<close>, joined by a newline: the second
  \<open>hello world\<close> is dropped as a repeat, the tagged line is passed over, and
  \<open>goodbye now\<close> is captured.
\<close>

theorem filter_subtitles_scenario:
  "filter_subtitles scenario = ''hello world'' @ [NL] @ ''goodbye now''"
  by code_simp

theorem filter_subtitles_scenario_witness:
  "split_nl (filter_subtitles scenario) = [''hello world'', ''goodbye now'']"
  using filter_subtitles_scenario by (simp add: split_nl_append_NL split_nl_single)

text \<open>
  C2. No line of the output equals the line before it. In particular a document of a
  header and cues whose candidates are all the same line \<open>t\<close> gives exactly \<open>t\<close>.
\<close>

theorem filter_no_adjacent_repeat:
  "distinct_adj (filter_lines s) \<and> distinct_adj (split_nl (filter_subtitles s)) \<and>
   (cues \<noteq> [] \<and> (\<forall>l\<in>set header. \<not> is_marker l \<and> NL \<notin> set l) \<and>
    (\<forall>(m, body)\<in>set cues. is_marker m \<and> NL \<notin> set m \<and>
        (\<forall>l\<in>set body. \<not> is_marker l \<and> NL \<notin> set l) \<and> candidate body = Some t)
    \<longrightarrow> filter_subtitles (join_nl (header @ cue_lines cues)) = t)"
proof -
  have d: "distinct_adj (filter_lines s)"
    unfolding filter_lines_def by (rule content_distinct_adj) (simp add: init_state_def)
  then have d': "distinct_adj (split_nl (filter_subtitles s))"
    by (simp add: split_output)
  have "filter_subtitles (join_nl (header @ cue_lines cues)) = t"
    if ne: "cues \<noteq> []" and h: "\<forall>l\<in>set header. \<not> is_marker l \<and> NL \<notin> set l"
      and c: "\<forall>(m, body)\<in>set cues. is_marker m \<and> NL \<notin> set m \<and>
        (\<forall>l\<in>set body. \<not> is_marker l \<and> NL \<notin> set l) \<and> candidate body = Some t"
  proof -
    have nl: "\<forall>l\<in>set (header @ cue_lines cues). NL \<notin> set l"
      using h c by (fastforce simp: cue_lines_def)
    have hd: "filter_loop init_state header = init_state"
      using h by (simp add: filter_loop_idle init_state_def)
    have "filter_lines (join_nl (header @ cue_lines cues)) =
        content_lines (filter_loop init_state (cue_lines cues))"
      using filter_lines_join[OF nl] hd by (simp add: filter_loop_append)
    also have "\<dots> = [t]"
      using filter_loop_same_cues[of cues t init_state] c ne by (auto simp: init_state_def)
    finally show ?thesis by (simp add: filter_subtitles_def)
  qed
  then show ?thesis using d d' by blast
qed

theorem filter_no_adjacent_repeat_witness:
  "sample_cues \<noteq> [] \<and>
   list_all (\<lambda>l. \<not> is_marker l \<and> NL \<notin> set l) [''WEBVTT'', ''Kind: captions'', ''''] \<and>
   list_all (\<lambda>(m, body). is_marker m \<and> NL \<notin> set m \<and>
        list_all (\<lambda>l. \<not> is_marker l \<and> NL \<notin> set l) body \<and>
        candidate body = Some ''hello world'') sample_cues \<and>
   filter_subtitles (join_nl ([''WEBVTT'', ''Kind: captions'', ''''] @ cue_lines sample_cues)) = ''hello world''"
proof -
  have h: "sample_cues \<noteq> [] \<and>
    list_all (\<lambda>l. \<not> is_marker l \<and> NL \<notin> set l) [''WEBVTT'', ''Kind: captions'', ''''] \<and>
    list_all (\<lambda>(m, body). is_marker m \<and> NL \<notin> set m \<and>
        list_all (\<lambda>l. \<not> is_marker l \<and> NL \<notin> set l) body \<and>
        candidate body = Some ''hello world'') sample_cues"
    by code_simp
  then have h': "sample_cues \<noteq> [] \<and>
    (\<forall>l\<in>set [''WEBVTT'', ''Kind: captions'', '''']. \<not> is_marker l \<and> NL \<notin> set l) \<and>
    (\<forall>(m, body)\<in>set sample_cues. is_marker m \<and> NL \<notin> set m \<and>
        (\<forall>l\<in>set body. \<not> is_marker l \<and> NL \<notin> set l) \<and> candidate body = Some ''hello world'')"
    unfolding list_all_iff by blast
  show ?thesis
    using h h' filter_no_adjacent_repeat[of "[]" sample_cues "[''WEBVTT'', ''Kind: captions'', '''']" "''hello world''"]
    by blast
qed

text \<open>
  C3. If no line of the input contains the arrow \<open>-->\<close>, the output is empty.
\<close>

theorem no_marker_empty:
  assumes "\<forall>l\<in>set (split_nl s). \<not> is_marker l"
  shows "filter_subtitles s = []"
proof -
  have "\<forall>l\<in>set (text_lines s). \<not> is_marker l"
    using assms by (auto simp: text_lines_def)
  then have "filter_loop init_state (text_lines s) = init_state"
    by (simp add: filter_loop_idle init_state_def)
  then show ?thesis by (simp add: filter_subtitles_def filter_lines_text init_state_def)
qed

theorem no_marker_empty_witness:
  "list_all (\<lambda>l. \<not> is_marker l) (split_nl (''WEBVTT'' @ [NL] @ ''hello <b>world</b>'' @ [NL] @ ''again''))
   \<and> filter_subtitles (''WEBVTT'' @ [NL] @ ''hello <b>world</b>'' @ [NL] @ ''again'') = []"
proof -
  have h: "list_all (\<lambda>l. \<not> is_marker l) (split_nl (''WEBVTT'' @ [NL] @ ''hello <b>world</b>'' @ [NL] @ ''again''))"
    by code_simp
  then have h': "\<forall>l\<in>set (split_nl (''WEBVTT'' @ [NL] @ ''hello <b>world</b>'' @ [NL] @ ''again'')). \<not> is_marker l"
    unfolding list_all_iff .
  show ?thesis using h no_marker_empty[OF h'] by blast
qed

text \<open>
  C4. A line of the input that contains \<open><\<close> or \<open>>\<close> is not a line of the
  output, as it stands or trimmed; the output contains neither character at all.
\<close>

theorem tagged_line_never_output:
  assumes "l \<in> set (split_nl s)" "CHR ''<'' \<in> set l \<or> CHR ''>'' \<in> set l"
  shows "l \<notin> set (split_nl (filter_subtitles s)) \<and> strip l \<notin> set (split_nl (filter_subtitles s))
     \<and> CHR ''<'' \<notin> set (filter_subtitles s) \<and> CHR ''>'' \<notin> set (filter_subtitles s)"
proof -
  have nt: "\<not> tag_free l" using assms(2) by (auto simp: tag_free_def)
  then have nts: "\<not> tag_free (strip l)" by simp
  have "\<forall>x\<in>set (split_nl (filter_subtitles s)). tag_free x"
    using filter_lines_props[of _ s] by (auto simp: split_output tag_free_def)
  then have "l \<notin> set (split_nl (filter_subtitles s))" "strip l \<notin> set (split_nl (filter_subtitles s))"
    using nt nts by blast+
  then show ?thesis using output_tag_free[of s] by (simp add: tag_free_def)
qed

theorem tagged_line_never_output_witness:
  "''<c>goodbye</c>'' \<in> set (split_nl scenario) \<and>
   ''<c>goodbye</c>'' \<notin> set (split_nl (filter_subtitles scenario))"
proof -
  have h: "''<c>goodbye</c>'' \<in> set (split_nl scenario)" by code_simp
  have t: "CHR ''<'' \<in> set ''<c>goodbye</c>'' \<or> CHR ''>'' \<in> set ''<c>goodbye</c>''" by simp
  show ?thesis using h tagged_line_never_output[OF h t] by blast
qed

text \<open>
  C5. Let the lines the loop runs over be \<open>pre\<close>, a timing line \<open>m\<close>, a stretch
  \<open>seg\<close> without timing lines, and \<open>rest\<close>. Over \<open>seg\<close> the loop appends at most one
  line: the candidate of \<open>seg\<close>, if there is one and it differs from the last captured
  line. The capture flag is cleared as soon as there is a candidate, appended or not, and
  what was captured up to there stays in the final output.
\<close>

theorem at_most_one_line_per_marker:
  assumes "split_nl (strip s) = pre @ m # seg @ rest" "is_marker m" "\<forall>l\<in>set seg. \<not> is_marker l"
  shows "(let before = content_lines (filter_loop init_state (pre @ [m]));
              after = content_lines (filter_loop init_state (pre @ m # seg))
          in (\<exists>ys. after = before @ ys \<and> length ys \<le> 1) \<and>
             after = (case candidate seg of
                        None \<Rightarrow> before
                      | Some t \<Rightarrow> if before = [] \<or> last before \<noteq> t then before @ [t] else before) \<and>
             capture_next (filter_loop init_state (pre @ m # seg)) = (candidate seg = None) \<and>
             (\<exists>zs. filter_lines s = after @ zs))"
proof -
  let ?st = "filter_loop init_state pre"
  let ?c = "content_lines ?st"
  have b: "filter_loop init_state (pre @ [m]) = ?st\<lparr>past_header := True, capture_next := True\<rparr>"
    using assms(2) by (simp add: filter_loop_append loop_body_marker)
  have a: "filter_loop init_state (pre @ m # seg) = filter_loop ?st (m # seg)"
    by (simp add: filter_loop_append)
  have f: "filter_lines s = content_lines (filter_loop (filter_loop init_state (pre @ m # seg)) rest)"
    using assms(1) filter_loop_append[of init_state "pre @ m # seg" rest]
    by (simp add: filter_lines_def)
  have g: "\<exists>zs. filter_lines s = content_lines (filter_loop init_state (pre @ m # seg)) @ zs"
    unfolding f by (rule content_grows)
  show ?thesis
    unfolding a b Let_def filter_loop_one_cue[OF assms(2,3)]
    using g[unfolded a filter_loop_one_cue[OF assms(2,3)]]
    by (cases "candidate seg") auto
qed

theorem at_most_one_line_per_marker_witness:
  "split_nl (strip two_blocks) = [''WEBVTT''] @ ''00:01 --> 00:02'' # [''first'', ''second''] @ [''00:02 --> 00:03'', ''third'']
   \<and> is_marker ''00:01 --> 00:02'' \<and> list_all (\<lambda>l. \<not> is_marker l) [''first'', ''second'']
   \<and> content_lines (filter_loop init_state ([''WEBVTT''] @ ''00:01 --> 00:02'' # [''first'', ''second''])) = [''first'']
   \<and> \<not> capture_next (filter_loop init_state ([''WEBVTT''] @ ''00:01 --> 00:02'' # [''first'', ''second'']))"
proof -
  have h1: "split_nl (strip two_blocks) = [''WEBVTT''] @ ''00:01 --> 00:02'' # [''first'', ''second''] @ [''00:02 --> 00:03'', ''third'']"
    by code_simp
  have h2: "is_marker ''00:01 --> 00:02''" by code_simp
  have h3: "\<forall>l\<in>set [''first'', ''second'']. \<not> is_marker l" by code_simp
  have h3': "list_all (\<lambda>l. \<not> is_marker l) [''first'', ''second'']" by code_simp
  have c: "candidate [''first'', ''second''] = Some ''first''" by code_simp
  have b: "content_lines (filter_loop init_state [''WEBVTT'', ''00:01 --> 00:02'']) = []" by code_simp
  show ?thesis
    using at_most_one_line_per_marker[OF h1 h2 h3] h1 h2 h3'
    by (simp add: Let_def c b del: filter_loop.simps)
qed

text \<open>
  C6. Put a timing line (any line containing the arrow) in front of each line of the
  output and filter again: the result has the same lines as the output, and is the same
  text.
\<close>

theorem filter_idempotent_on_wrapped:
  assumes "length ms = length (split_nl (filter_subtitles s))" "\<forall>m\<in>set ms. is_marker m \<and> NL \<notin> set m"
  shows "split_nl (filter_subtitles (join_nl (wrap ms (split_nl (filter_subtitles s)))))
           = split_nl (filter_subtitles s)
       \<and> filter_subtitles (join_nl (wrap ms (split_nl (filter_subtitles s)))) = filter_subtitles s"
proof -
  let ?ls = "split_nl (filter_subtitles s)"
  have nl: "\<forall>l\<in>set (wrap ms ?ls). NL \<notin> set l"
    using set_wrap[of ms ?ls] assms(2) split_nl_no_NL by blast
  have j: "filter_lines (join_nl (wrap ms ?ls)) = content_lines (filter_loop init_state (wrap ms ?ls))"
    using nl by (rule filter_lines_join)
  have "filter_lines (join_nl (wrap ms ?ls)) = filter_lines s"
  proof (cases "filter_lines s = []")
    case True
    then have ls: "?ls = [[]]" by (simp add: split_output)
    then obtain m where ms: "ms = [m]" using assms(1) by (cases ms) auto
    have "is_marker m" using assms(2) ms by simp
    then have "content_lines (filter_loop init_state [m, []]) = []"
      by (simp add: loop_body_marker loop_body_empty init_state_def)
    then show ?thesis using j True by (simp add: ls ms)
  next
    case False
    then have ls: "?ls = filter_lines s" by (simp add: split_output)
    have d: "distinct_adj (filter_lines s)"
      unfolding filter_lines_def by (rule content_distinct_adj) (simp add: init_state_def)
    have "content_lines (filter_loop init_state (wrap ms (filter_lines s)))
        = content_lines init_state @ filter_lines s"
      using assms ls filter_lines_props[of _ s] d
      by (intro filter_loop_wrap) (auto simp: init_state_def)
    then show ?thesis using j ls by (simp add: init_state_def)
  qed
  then show ?thesis by (simp add: filter_subtitles_def)
qed

theorem filter_idempotent_on_wrapped_witness:
  "length [''0 --> 1'', ''1 --> 2''] = length (split_nl (filter_subtitles scenario))
   \<and> list_all (\<lambda>m. is_marker m \<and> NL \<notin> set m) [''0 --> 1'', ''1 --> 2'']
   \<and> filter_subtitles (join_nl (wrap [''0 --> 1'', ''1 --> 2''] (split_nl (filter_subtitles scenario))))
       = filter_subtitles scenario"
proof -
  have h1: "length [''0 --> 1'', ''1 --> 2''] = length (split_nl (filter_subtitles scenario))"
    by code_simp
  have h2: "\<forall>m\<in>set [''0 --> 1'', ''1 --> 2'']. is_marker m \<and> NL \<notin> set m"
    by code_simp
  have h2': "list_all (\<lambda>m. is_marker m \<and> NL \<notin> set m) [''0 --> 1'', ''1 --> 2'']"
    by code_simp
  show ?thesis using filter_idempotent_on_wrapped[OF h1 h2] h1 h2' by blast
qed

text \<open>
  C7. Without a marker \<open>v=\<close> followed by an identifier character the extractor
  returns its input. Otherwise, with \<open>i\<close> the leftmost such marker, it returns the longest
  run of identifier characters right after it: the result is not empty, consists of
  identifier characters, and is followed in the input by no further one. The three
  examples of the specification come out as stated.
\<close>

theorem extract_video_id_contract:
  "((\<forall>i. \<not> marker_at s i) \<longrightarrow> extract_video_id s = s) \<and>
   (marker_at s i \<and> (\<forall>j<i. \<not> marker_at s j) \<longrightarrow>
      extract_video_id s = takeWhile is_ident (drop (i + 2) s) \<and>
      extract_video_id s \<noteq> [] \<and> (\<forall>c\<in>set (extract_video_id s). is_ident c) \<and>
      (\<exists>post. s = take i s @ ''v='' @ extract_video_id s @ post \<and>
              (post = [] \<or> \<not> is_ident (hd post)))) \<and>
   extract_video_id ''https://www.youtube.com/watch?v=a4sHHnlasPQ'' = ''a4sHHnlasPQ'' \<and>
   extract_video_id ''a4sHHnlasPQ'' = ''a4sHHnlasPQ'' \<and>
   extract_video_id ''v=abc-123&t=5'' = ''abc-123''"
proof -
  have none: "extract_video_id s = s" if "\<forall>i. \<not> marker_at s i"
    using re_search_none[OF that] by (simp add: extract_video_id_def)
  have some: "extract_video_id s = takeWhile is_ident (drop (i + 2) s) \<and>
      extract_video_id s \<noteq> [] \<and> (\<forall>c\<in>set (extract_video_id s). is_ident c) \<and>
      (\<exists>post. s = take i s @ ''v='' @ extract_video_id s @ post \<and>
              (post = [] \<or> \<not> is_ident (hd post)))"
    if m: "marker_at s i" and l: "\<forall>j<i. \<not> marker_at s j"
  proof -
    let ?r = "takeWhile is_ident (drop (i + 2) s)"
    let ?post = "dropWhile is_ident (drop (i + 2) s)"
    have e: "extract_video_id s = ?r"
      using re_search_leftmost[OF m l] by (simp add: extract_video_id_def)
    have ne: "?r \<noteq> []"
      using m by (simp add: marker_at_def takeWhile_ne hd_drop_conv_nth)
    have all: "\<forall>c\<in>set ?r. is_ident c" by (auto dest: set_takeWhileD)
    have "drop i s = take 2 (drop i s) @ drop 2 (drop i s)"
      by (rule append_take_drop_id[symmetric])
    moreover have "drop 2 (drop i s) = drop (i + 2) s"
      by (simp add: add.commute)
    moreover have "take 2 (drop i s) = ''v=''"
      using m by (simp add: marker_at_def)
    ultimately have "drop i s = ''v='' @ drop (i + 2) s"
      by (simp only:)
    then have "s = take i s @ ''v='' @ drop (i + 2) s"
      by (metis append_take_drop_id)
    then have d: "s = take i s @ ''v='' @ ?r @ ?post" by simp
    have p: "?post = [] \<or> \<not> is_ident (hd ?post)" using hd_dropWhile by blast
    show ?thesis unfolding e using ne all d p by blast
  qed
  have 1: "extract_video_id ''https://www.youtube.com/watch?v=a4sHHnlasPQ'' = ''a4sHHnlasPQ''"
    by code_simp
  have 2: "extract_video_id ''a4sHHnlasPQ'' = ''a4sHHnlasPQ''"
    by code_simp
  have 3: "extract_video_id ''v=abc-123&t=5'' = ''abc-123''"
    by code_simp
  show ?thesis using none some 1 2 3 by blast
qed

theorem extract_video_id_contract_witness:
  "(\<forall>i. \<not> marker_at ''youtu.be/x y'' i) \<and>
   extract_video_id ''youtu.be/x y'' = ''youtu.be/x y'' \<and>
   marker_at ''xv=&v=abc-1 2'' 4 \<and> list_all (\<lambda>j. \<not> marker_at ''xv=&v=abc-1 2'' j) [0 ..< 4] \<and>
   extract_video_id ''xv=&v=abc-1 2'' = ''abc-1''"
proof -
  have "\<forall>i\<in>set [0 ..< length ''youtu.be/x y'']. \<not> marker_at ''youtu.be/x y'' i"
    by code_simp
  then have h1: "\<forall>i. \<not> marker_at ''youtu.be/x y'' i"
    using marker_at_bound by blast
  have h2: "marker_at ''xv=&v=abc-1 2'' 4"
    by code_simp
  have h3': "list_all (\<lambda>j. \<not> marker_at ''xv=&v=abc-1 2'' j) [0 ..< 4]"
    by code_simp
  then have h3: "\<forall>j<4. \<not> marker_at ''xv=&v=abc-1 2'' j"
    unfolding list_all_iff by simp
  have t: "takeWhile is_ident (drop (4 + 2) ''xv=&v=abc-1 2'') = ''abc-1''"
    by code_simp
  show ?thesis
    using extract_video_id_contract[of "''youtu.be/x y''" 0]
      extract_video_id_contract[of "''xv=&v=abc-1 2''" 4] h1 h2 h3 h3' t
    by presburger
qed

text \<open>
  C8. The claim that the result always consists of identifier characters fails where
  the input is passed through: a short link keeps its colon.
\<close>

theorem extract_video_id_passthrough_counterexample:
  "CHR '':'' \<in> set (extract_video_id ''https://youtu.be/a4sHHnlasPQ'') \<and> \<not> is_ident CHR '':''"
  by code_simp

text \<open>
  C8, amended. The result consists of identifier characters exactly when a marker is found
  or the input itself consists of identifier characters.
\<close>

theorem extract_video_id_ident_iff:
  "(\<forall>c\<in>set (extract_video_id s). is_ident c) \<longleftrightarrow> ((\<exists>i. marker_at s i) \<or> (\<forall>c\<in>set s. is_ident c))"
proof (cases "\<exists>i. marker_at s i")
  case True
  then obtain i where i: "marker_at s i" "\<forall>j<i. \<not> marker_at s j"
    using exists_least_iff[of "marker_at s"] by blast
  have "extract_video_id s = takeWhile is_ident (drop (i + 2) s)"
    using re_search_leftmost[OF i] by (simp add: extract_video_id_def)
  then have "\<forall>c\<in>set (extract_video_id s). is_ident c" by (auto dest: set_takeWhileD)
  then show ?thesis using True by blast
next
  case False
  then have "extract_video_id s = s"
    using re_search_none[of s] by (simp add: extract_video_id_def)
  then show ?thesis using False by simp
qed

theorem extract_video_id_ident_iff_witness:
  "(\<exists>i. marker_at ''v=abc-123&t=5'' i) \<and>
   list_all is_ident (extract_video_id ''v=abc-123&t=5'')"
proof -
  have "marker_at ''v=abc-123&t=5'' 0" by code_simp
  then have h: "\<exists>i. marker_at ''v=abc-123&t=5'' i" by blast
  show ?thesis using h extract_video_id_ident_iff[of "''v=abc-123&t=5''"]
    unfolding list_all_iff by blast
qed

text \<open>
  The three ways the function goes when the environment gives no credential. With the key
  missing from the secrets store the failure is reported and \<open>'Key ' + None\<close> stops the
  function before the request.
\<close>

lemma missing_key_halts:
  assumes "environ w ''CLARIFAI_PAT'' = None \<or> environ w ''CLARIFAI_PAT'' = Some []"
    and "secrets w ''CLARIFAI_PAT'' = NoSuchKey"
  shows "format_with_clarifai_api w selected_model raw_text prompt =
           (Inl TypeError,
            [StError ''Failed to retrieve the Clarifai Personal Access Token!'', OpenChannel])"
proof -
  have "resolve_pat w =
      (Inr None, [StError ''Failed to retrieve the Clarifai Personal Access Token!''])"
    using assms by (auto simp: resolve_pat_def)
  then show ?thesis by (simp add: format_with_clarifai_api_def)
qed

text \<open>
  When the lookup raises anything else, the exception leaves the function at once: no
  request, and no report either.
\<close>

lemma lookup_failure_escapes:
  assumes "environ w ''CLARIFAI_PAT'' = None \<or> environ w ''CLARIFAI_PAT'' = Some []"
    and "secrets w ''CLARIFAI_PAT'' = LookupFails"
  shows "format_with_clarifai_api w selected_model raw_text prompt = (Inl SecretsError, [])"
proof -
  have "resolve_pat w = (Inl SecretsError, [])"
    using assms by (auto simp: resolve_pat_def)
  then show ?thesis by (simp add: format_with_clarifai_api_def)
qed

text \<open>
  An empty secret is taken for a credential: the request goes out with the bare prefix.
\<close>

lemma empty_secret_posts:
  assumes "environ w ''CLARIFAI_PAT'' = None \<or> environ w ''CLARIFAI_PAT'' = Some []"
    and "secrets w ''CLARIFAI_PAT'' = Secret []"
  shows "PostModelOutputs
           \<lparr>user_id = USER_ID selected_model, app_id = APP_ID selected_model,
            model_id = MODEL_ID selected_model, version_id = MODEL_VERSION_ID selected_model,
            raw = prompt @ [NL] @ raw_text @ [NL], authorization = ''Key ''\<rparr>
         \<in> set (snd (format_with_clarifai_api w selected_model raw_text prompt))"
proof -
  have "resolve_pat w = (Inr (Some []), [])"
    using assms by (auto simp: resolve_pat_def)
  then show ?thesis
    by (simp add: format_with_clarifai_api_def Let_def split: list.splits)
qed

text \<open>
  C9. Without a credential the client should report the failure and post nothing. It does
  not where the secrets store holds an empty value for the key: no failure is reported and
  a request with the authorization \<open>Key \<close> is posted, the only report being the
  provider's refusal afterwards. And where there is no secrets file the function is left by
  the exception of the lookup, before any request, but without the report.
\<close>

theorem missing_credential_not_caught:
  "format_with_clarifai_api empty_secret gpt4 ''hello world'' format_prompt =
     (Inr None,
      [OpenChannel,
       PostModelOutputs
         \<lparr>user_id = ''openai'', app_id = ''chat-completion'', model_id = ''GPT-4'',
          version_id = ''ad16eda6ac054796bf9f348ab6733c72'',
          raw = format_prompt @ [NL] @ ''hello world'' @ [NL], authorization = ''Key ''\<rparr>,
       StError ''Error from Clarifai API: Invalid API key''])
   \<and> format_with_clarifai_api no_secrets_file gpt4 ''hello world'' format_prompt =
     (Inl SecretsError, [])"
  by (simp add: format_with_clarifai_api_def resolve_pat_def empty_secret_def
      no_secrets_file_def gpt4_def SUCCESS_def)

theorem missing_credential_not_caught_witness:
  "PostModelOutputs
     \<lparr>user_id = ''openai'', app_id = ''chat-completion'', model_id = ''GPT-4'',
      version_id = ''ad16eda6ac054796bf9f348ab6733c72'',
      raw = format_prompt @ [NL] @ ''hello world'' @ [NL], authorization = ''Key ''\<rparr>
   \<in> set (snd (format_with_clarifai_api empty_secret gpt4 ''hello world'' format_prompt))
   \<and> StError ''Failed to retrieve the Clarifai Personal Access Token!''
   \<notin> set (snd (format_with_clarifai_api no_secrets_file gpt4 ''hello world'' format_prompt))"
  using missing_credential_not_caught by simp

text \<open>
  C10. With a credential at hand and a status other than \<open>SUCCESS\<close> in the response,
  the client reports the description of the status and returns \<open>None\<close>. The button action
  that made the call stores that \<open>None\<close> and leaves the other results as they were.
\<close>

theorem provider_error_returns_none:
  assumes pat: "fst (resolve_pat w) = Inr (Some pat)"
    and req: "req = \<lparr>user_id = USER_ID selected_model, app_id = APP_ID selected_model,
                     model_id = MODEL_ID selected_model,
                     version_id = MODEL_VERSION_ID selected_model,
                     raw = prompt @ [NL] @ raw_text @ [NL], authorization = ''Key '' @ pat\<rparr>"
    and fail: "status_code (hosted_model w req) \<noteq> SUCCESS"
  shows "format_with_clarifai_api w selected_model raw_text prompt =
           (Inr None,
            [OpenChannel, PostModelOutputs req,
             StError (''Error from Clarifai API: '' @ description (hosted_model w req))])
       \<and> (subtitles ss = Some raw_text \<and> raw_text \<noteq> [] \<and> prompt = format_prompt \<longrightarrow>
            punctuate_script w selected_model ss =
              (Inr (ss\<lparr>formatted_text := None\<rparr>),
               [OpenChannel, PostModelOutputs req,
                StError (''Error from Clarifai API: '' @ description (hosted_model w req))]))
       \<and> (subtitles ss = Some subs \<and> subs \<noteq> [] \<and> formatted_text ss = Some raw_text \<and>
          raw_text \<noteq> [] \<and> prompt = video_prompt \<longrightarrow>
            generate_title w selected_model ss =
              (Inr (ss\<lparr>video_description := None\<rparr>),
               [OpenChannel, PostModelOutputs req,
                StError (''Error from Clarifai API: '' @ description (hosted_model w req))]))"
proof -
  have "resolve_pat w = (Inr (Some pat), [])"
    using pat by (auto simp: resolve_pat_def split: option.splits list.splits secret_lookup.splits)
  then have f: "format_with_clarifai_api w selected_model raw_text prompt =
           (Inr None,
            [OpenChannel, PostModelOutputs req,
             StError (''Error from Clarifai API: '' @ description (hosted_model w req))])"
    using fail unfolding req by (simp add: format_with_clarifai_api_def Let_def)
  have p: "punctuate_script w selected_model ss =
              (Inr (ss\<lparr>formatted_text := None\<rparr>),
               [OpenChannel, PostModelOutputs req,
                StError (''Error from Clarifai API: '' @ description (hosted_model w req))])"
    if "subtitles ss = Some raw_text" "raw_text \<noteq> []" "prompt = format_prompt"
    using that f by (cases raw_text) (simp_all add: punctuate_script_def)
  have g: "generate_title w selected_model ss =
              (Inr (ss\<lparr>video_description := None\<rparr>),
               [OpenChannel, PostModelOutputs req,
                StError (''Error from Clarifai API: '' @ description (hosted_model w req))])"
    if "subtitles ss = Some subs" "subs \<noteq> []" "formatted_text ss = Some raw_text"
      "raw_text \<noteq> []" "prompt = video_prompt"
    using that f by (cases raw_text; cases subs) (simp_all add: generate_title_def)
  show ?thesis using f p g by blast
qed

theorem provider_error_returns_none_witness:
  "fst (resolve_pat failing_model) = Inr (Some ''0123'')
   \<and> status_code (hosted_model failing_model
        \<lparr>user_id = USER_ID gpt4, app_id = APP_ID gpt4, model_id = MODEL_ID gpt4,
         version_id = MODEL_VERSION_ID gpt4,
         raw = format_prompt @ [NL] @ ''hello world'' @ [NL], authorization = ''Key '' @ ''0123''\<rparr>) \<noteq> SUCCESS
   \<and> fst (format_with_clarifai_api failing_model gpt4 ''hello world'' format_prompt) = Inr None
   \<and> fst (punctuate_script failing_model gpt4
        \<lparr>subtitles = Some ''hello world'', formatted_text = Some ''Old.'', video_description = None\<rparr>)
       = Inr \<lparr>subtitles = Some ''hello world'', formatted_text = None, video_description = None\<rparr>"
proof -
  let ?req = "\<lparr>user_id = USER_ID gpt4, app_id = APP_ID gpt4, model_id = MODEL_ID gpt4,
         version_id = MODEL_VERSION_ID gpt4,
         raw = format_prompt @ [NL] @ ''hello world'' @ [NL], authorization = ''Key '' @ ''0123''\<rparr>"
  let ?ss = "\<lparr>subtitles = Some ''hello world'', formatted_text = Some ''Old.'', video_description = None\<rparr>"
  have h1: "fst (resolve_pat failing_model) = Inr (Some ''0123'')"
    by (simp add: resolve_pat_def failing_model_def)
  have h2: "status_code (hosted_model failing_model ?req) \<noteq> SUCCESS"
    by (simp add: failing_model_def SUCCESS_def)
  have s: "subtitles ?ss = Some ''hello world'' \<and> ''hello world'' \<noteq> [] \<and> format_prompt = format_prompt"
    by simp
  show ?thesis
    using provider_error_returns_none[OF h1 refl h2, of ?ss] h1 h2 s by simp
qed

end
